theory Spec2Isabelle
  imports Main "HOL-Library.Multiset"
begin

unbundle bit_operations_syntax

section \<open>CheckPageRepeat: detection of repeated page bodies\<close>

text \<open>
  The class \<^verbatim>\<open>CheckPageRepeat\<close> of \<^verbatim>\<open>hobbit/actions/__init__.py\<close> keeps four
  attributes. The last page text starts as Python's \<^verbatim>\<open>None\<close>, which no page text (a
  \<^verbatim>\<open>str\<close>) equals, so it is a \<open>string option\<close>.
\<close>

record CheckPageRepeat =
  last_page_text :: "string option"
  repeat_page :: int
  check_break :: bool
  max_page_repeat :: int

definition CheckPageRepeat_init :: "int \<Rightarrow> CheckPageRepeat" where
  "CheckPageRepeat_init m =
     \<lparr>last_page_text = None, repeat_page = 0, check_break = False, max_page_repeat = m\<rparr>"

text \<open>
  \<^verbatim>\<open>__call__\<close>: the state is passed in and returned with the answer. The last test of
  the source compares \<^verbatim>\<open>self.__repeat_page\<close> with itself, and so does the model.
\<close>

definition CheckPageRepeat_call :: "CheckPageRepeat \<Rightarrow> string \<Rightarrow> bool \<times> CheckPageRepeat" where
  "CheckPageRepeat_call self page_text =
     (let (repeat, s1) =
            (if Some page_text = last_page_text self
             then (True, self\<lparr>repeat_page := repeat_page self + 1\<rparr>)
             else (False, self\<lparr>repeat_page := 0, last_page_text := Some page_text\<rparr>));
          s2 = (if repeat_page s1 > repeat_page s1 then s1\<lparr>check_break := True\<rparr> else s1)
      in (repeat, s2))"

text \<open>A sequence of calls on one object, and the answers they give.\<close>

fun observe_all :: "CheckPageRepeat \<Rightarrow> string list \<Rightarrow> CheckPageRepeat" where
  "observe_all s [] = s"
| "observe_all s (b # bs) = observe_all (snd (CheckPageRepeat_call s b)) bs"

text \<open>The value of the streak counter after each call of a sequence.\<close>

fun streaks :: "CheckPageRepeat \<Rightarrow> string list \<Rightarrow> int list" where
  "streaks s [] = []"
| "streaks s (b # bs) =
     repeat_page (snd (CheckPageRepeat_call s b)) # streaks (snd (CheckPageRepeat_call s b)) bs"

section \<open>Action: the identity hash\<close>

text \<open>
  Python values as far as the hash looks at them: hashable scalars (\<open>atom\<close>), lists
  (unhashable) and dicts, the only \<^verbatim>\<open>MutableMapping\<close> modelled. A dict is the list of
  its items in insertion order, which is the order \<^verbatim>\<open>.items()\<close> iterates in; its keys are
  hashable, as Python demands of a dict key.
\<close>

datatype atom = Str string | Num int | NoneA

datatype pyval = Atom atom | Lst "pyval list" | Dict "(atom \<times> pyval) list"

datatype exn = TypeError | ValueError | StopIteration | RuntimeError | OtherError string

text \<open>
  The builtin \<^verbatim>\<open>hash\<close>: on scalars it is a parameter \<open>h\<close> of the model (Python seeds
  the hash of a \<^verbatim>\<open>str\<close> per process), on lists and dicts it raises \<^verbatim>\<open>TypeError\<close>.
\<close>

fun py_hash :: "(atom \<Rightarrow> int) \<Rightarrow> pyval \<Rightarrow> exn + int" where
  "py_hash h (Atom a) = Inr (h a)"
| "py_hash h (Lst l) = Inl TypeError"
| "py_hash h (Dict d) = Inl TypeError"

record Action =
  args :: "pyval list"
  kwargs :: "(atom \<times> pyval) list"
  is_result :: bool

definition Action_init :: "pyval list \<Rightarrow> (atom \<times> pyval) list \<Rightarrow> Action" where
  "Action_init as kws = \<lparr>args = as, kwargs = kws, is_result = False\<rparr>"

text \<open>
  The loop of \<^verbatim>\<open>_get_kwargs_hash\<close>, with \<^verbatim>\<open>kwargs_hash\<close> as accumulator. The
  conditional expression of the source selects the whole right-hand side: for a mapping
  the recursive hash alone, otherwise \<^verbatim>\<open>hash(key) ^ hash(value)\<close>.
\<close>

function kwargs_loop :: "(atom \<Rightarrow> int) \<Rightarrow> int \<Rightarrow> (atom \<times> pyval) list \<Rightarrow> exn + int" where
  "kwargs_loop h acc [] = Inr acc"
| "kwargs_loop h acc ((key, Dict d) # rest) =
     (case kwargs_loop h (h (Str '''')) d of
        Inl e \<Rightarrow> Inl e
      | Inr x \<Rightarrow> kwargs_loop h (acc XOR x) rest)"
| "kwargs_loop h acc ((key, Atom a) # rest) =
     (case py_hash h (Atom a) of
        Inl e \<Rightarrow> Inl e
      | Inr x \<Rightarrow> kwargs_loop h (acc XOR (h key XOR x)) rest)"
| "kwargs_loop h acc ((key, Lst l) # rest) =
     (case py_hash h (Lst l) of
        Inl e \<Rightarrow> Inl e
      | Inr x \<Rightarrow> kwargs_loop h (acc XOR (h key XOR x)) rest)"
  by pat_completeness auto
termination
  by (relation "measure (\<lambda>(h, acc, kws). size_list (size_prod (\<lambda>_. 0) size) kws)") auto

definition get_kwargs_hash :: "(atom \<Rightarrow> int) \<Rightarrow> (atom \<times> pyval) list \<Rightarrow> exn + int" where
  "get_kwargs_hash h kws = kwargs_loop h (h (Str '''')) kws"

text \<open>\<^verbatim>\<open>reduce(xor, map(hash, args))\<close> after its first element.\<close>

fun reduce_xor_hash :: "(atom \<Rightarrow> int) \<Rightarrow> int \<Rightarrow> pyval list \<Rightarrow> exn + int" where
  "reduce_xor_hash h acc [] = Inr acc"
| "reduce_xor_hash h acc (a # as) =
     (case py_hash h a of
        Inl e \<Rightarrow> Inl e
      | Inr x \<Rightarrow> reduce_xor_hash h (acc XOR x) as)"

definition args_hash :: "(atom \<Rightarrow> int) \<Rightarrow> pyval list \<Rightarrow> exn + int" where
  "args_hash h as =
     (case as of
        [] \<Rightarrow> Inr (h (Str ''''))
      | a # rest \<Rightarrow> (case py_hash h a of Inl e \<Rightarrow> Inl e | Inr x \<Rightarrow> reduce_xor_hash h x rest))"

text \<open>\<^verbatim>\<open>Action.__hash__\<close>: the keyword hash is computed first, then the hash of the arguments.\<close>

definition Action_hash :: "(atom \<Rightarrow> int) \<Rightarrow> 'a Action_scheme \<Rightarrow> exn + int" where
  "Action_hash h self =
     (case get_kwargs_hash h (kwargs self) of
        Inl e \<Rightarrow> Inl e
      | Inr kwargs_hash \<Rightarrow>
          (case args_hash h (args self) of
             Inl e \<Rightarrow> Inl e
           | Inr args_hash' \<Rightarrow> Inr (kwargs_hash XOR args_hash')))"

text \<open>
  A sample of the builtin hash, for evaluating the model on concrete actions. Like
  CPython's it gives 0 for the empty string and the number itself for a small integer.
\<close>

fun sample_hash :: "atom \<Rightarrow> int" where
  "sample_hash (Str s) = foldl (\<lambda>acc c. 31 * acc + int (of_char c)) 0 s"
| "sample_hash (Num n) = n"
| "sample_hash NoneA = 8795"

text \<open>
  What one item of a keyword mapping adds to the accumulator, and the combination of the
  accumulator with it, an exception of either side passing through.
\<close>

fun item_hash :: "(atom \<Rightarrow> int) \<Rightarrow> atom \<times> pyval \<Rightarrow> exn + int" where
  "item_hash h (key, Dict d) = get_kwargs_hash h d"
| "item_hash h (key, Atom a) = Inr (h key XOR h a)"
| "item_hash h (key, Lst l) = Inl TypeError"

definition xor_step :: "exn + int \<Rightarrow> exn + int \<Rightarrow> exn + int" where
  "xor_step c r = (case r of Inl e \<Rightarrow> Inl e | Inr acc \<Rightarrow>
                     (case c of Inl e \<Rightarrow> Inl e | Inr x \<Rightarrow> Inr (acc XOR x)))"

text \<open>
  Two mappings are the same mapping when one is obtained from the other by reordering
  items, at any depth: \<open>same_items\<close> relates the item lists of two dicts that hold the
  same keys with the same values, whatever the insertion order was.
\<close>

inductive same_value :: "pyval \<Rightarrow> pyval \<Rightarrow> bool"
  and same_items :: "(atom \<times> pyval) list \<Rightarrow> (atom \<times> pyval) list \<Rightarrow> bool" where
  same_refl: "same_value v v"
| same_Lst: "list_all2 same_value xs ys \<Longrightarrow> same_value (Lst xs) (Lst ys)"
| same_Dict: "same_items d e \<Longrightarrow> same_value (Dict d) (Dict e)"
| items_Nil: "same_items [] []"
| items_Cons: "same_value v w \<Longrightarrow> same_items d e \<Longrightarrow> same_items ((k, v) # d) ((k, w) # e)"
| items_swap: "same_items (x # y # d) (y # x # d)"
| items_trans: "same_items d e \<Longrightarrow> same_items e f \<Longrightarrow> same_items d f"

text \<open>
  The attribute hash as the specification words it, for comparison with
  \<open>get_kwargs_hash\<close>: every pair, a nested mapping included, adds
  \<^verbatim>\<open>hash(key) XOR innerHash(value)\<close>.
\<close>

function spec_kwargs_loop :: "(atom \<Rightarrow> int) \<Rightarrow> int \<Rightarrow> (atom \<times> pyval) list \<Rightarrow> exn + int" where
  "spec_kwargs_loop h acc [] = Inr acc"
| "spec_kwargs_loop h acc ((key, Dict d) # rest) =
     (case spec_kwargs_loop h (h (Str '''')) d of
        Inl e \<Rightarrow> Inl e
      | Inr x \<Rightarrow> spec_kwargs_loop h (acc XOR (h key XOR x)) rest)"
| "spec_kwargs_loop h acc ((key, Atom a) # rest) =
     spec_kwargs_loop h (acc XOR (h key XOR h a)) rest"
| "spec_kwargs_loop h acc ((key, Lst l) # rest) = Inl TypeError"
  by pat_completeness auto
termination
  by (relation "measure (\<lambda>(h, acc, kws). size_list (size_prod (\<lambda>_. 0) size) kws)") auto

definition spec_attribute_hash :: "(atom \<Rightarrow> int) \<Rightarrow> (atom \<times> pyval) list \<Rightarrow> exn + int" where
  "spec_attribute_hash h kws = spec_kwargs_loop h (h (Str '''')) kws"

section \<open>ThreadAction: fetching pages through a pool of workers\<close>

record ThreadAction = Action +
  max_workers :: pyval

text \<open>Python's truth value of an object, as \<^verbatim>\<open>or\<close> tests it.\<close>

fun truthy :: "pyval \<Rightarrow> bool" where
  "truthy (Atom (Str s)) = (s \<noteq> [])"
| "truthy (Atom (Num n)) = (n \<noteq> 0)"
| "truthy (Atom NoneA) = False"
| "truthy (Lst l) = (l \<noteq> [])"
| "truthy (Dict d) = (d \<noteq> [])"

text \<open>\<^verbatim>\<open>dict.get(key)\<close>: the value stored under the key, \<^verbatim>\<open>None\<close> when there is none.\<close>

definition dict_get :: "(atom \<times> pyval) list \<Rightarrow> atom \<Rightarrow> pyval" where
  "dict_get d key = (case map_of d key of None \<Rightarrow> Atom NoneA | Some v \<Rightarrow> v)"

text \<open>
  \<^verbatim>\<open>ThreadAction.__init__\<close> hands every keyword on to \<^verbatim>\<open>Action.__init__\<close>, the
  keyword \<^verbatim>\<open>max_workers\<close> too, and stores \<^verbatim>\<open>kwargs.get('max_workers') or 5\<close>.
\<close>

definition ThreadAction_init :: "pyval list \<Rightarrow> (atom \<times> pyval) list \<Rightarrow> ThreadAction" where
  "ThreadAction_init as kws =
     \<lparr>args = as, kwargs = kws, is_result = False,
      max_workers = (let v = dict_get kws (Str ''max_workers'')
                     in if truthy v then v else Atom (Num 5))\<rparr>"

text \<open>
  The constructor of \<^verbatim>\<open>concurrent.futures.ThreadPoolExecutor\<close> belongs to Python's
  standard library. It raises \<^verbatim>\<open>ValueError\<close> for a number of workers that is not
  positive, and the comparison with 0 raises \<^verbatim>\<open>TypeError\<close> for a value that is not a
  number (\<^verbatim>\<open>None\<close> never reaches it from \<open>ThreadAction_init\<close>). The result is the size
  of the pool.
\<close>

fun ThreadPoolExecutor_init :: "pyval \<Rightarrow> exn + nat" where
  "ThreadPoolExecutor_init (Atom (Num n)) = (if n \<le> 0 then Inl ValueError else Inr (nat n))"
| "ThreadPoolExecutor_init v = Inl TypeError"

text \<open>
  How the generator \<^verbatim>\<open>get_pages\<close> ends for a consumer that takes everything it yields:
  the loop ran out of futures, the loop left through \<^verbatim>\<open>break\<close>, an exception came
  out of it, or a \<^verbatim>\<open>StopIteration\<close> raised inside it left it and was taken by the
  consumer for the end of the sequence.
\<close>

datatype ending = Exhausted | Stopped | Raised exn | Swallowed

text \<open>
  What an exception raised inside the body of a generator is for its consumer. Nothing in
  \<^verbatim>\<open>get_pages\<close> catches an exception. The flag says whether the interpreter applies
  PEP 479 (Python 3.7 and later): then a \<^verbatim>\<open>StopIteration\<close> leaves the generator as
  \<^verbatim>\<open>RuntimeError\<close>; before, it leaves as it is and ends the iteration silently. Every
  other exception reaches the consumer unchanged.
\<close>

definition leave_generator :: "bool \<Rightarrow> exn \<Rightarrow> ending" where
  "leave_generator generator_stop e =
     (if e = StopIteration then (if generator_stop then Raised RuntimeError else Swallowed)
      else Raised e)"

text \<open>
  The body of the loop over \<^verbatim>\<open>as_completed(future_set)\<close>. A completed future is its URL
  with the outcome of \<^verbatim>\<open>robber.get_region(url)\<close>: the page text, or the exception that
  \<^verbatim>\<open>future.result()\<close> raises again. The parser \<^verbatim>\<open>BeautifulSoup(page_text, 'html.parser')\<close>
  is a parameter; it runs on every page text before the repeat check and may raise.
\<close>

fun drain :: "bool \<Rightarrow> (string \<Rightarrow> exn + 'tag) \<Rightarrow> CheckPageRepeat \<Rightarrow>
    (string \<times> (exn + string)) list \<Rightarrow> (string \<times> 'tag) list \<times> ending" where
  "drain generator_stop parse check_page_repeat [] = ([], Exhausted)"
| "drain generator_stop parse check_page_repeat ((url, Inl e) # rest) =
     ([], leave_generator generator_stop e)"
| "drain generator_stop parse check_page_repeat ((url, Inr page_text) # rest) =
     (case parse page_text of
        Inl e \<Rightarrow> ([], leave_generator generator_stop e)
      | Inr page_tag \<Rightarrow>
          (let (repeat, check_page_repeat') = CheckPageRepeat_call check_page_repeat page_text
           in if \<not> repeat then
                (case drain generator_stop parse check_page_repeat' rest of
                   (pages, en) \<Rightarrow> ((url, page_tag) # pages, en))
              else if check_break check_page_repeat' then ([], Stopped)
              else drain generator_stop parse check_page_repeat' rest))"

text \<open>
  The order in which the futures complete is up to the pool and the transport: it is a
  parameter, a list of positions in the submission order, each position once.
\<close>

definition as_completed :: "nat list \<Rightarrow> 'a list \<Rightarrow> 'a list" where
  "as_completed order futures = map (\<lambda>i. futures ! i) order"

record 'tag pages =
  yielded :: "(string \<times> 'tag) list"
  ending :: ending
  submitted :: nat

text \<open>
  \<^verbatim>\<open>get_pages\<close>, run to its end. The transport \<open>robber i url\<close> gives the outcome of the
  call submitted at position \<open>i\<close>, so that it may answer differently to two calls for
  one URL. Every submitted call is taken to return or to raise.
\<close>

definition get_pages :: "bool \<Rightarrow> ThreadAction \<Rightarrow> (string \<Rightarrow> exn + 'tag) \<Rightarrow>
    (nat \<Rightarrow> string \<Rightarrow> exn + string) \<Rightarrow> nat list \<Rightarrow> string list \<Rightarrow> 'tag pages" where
  "get_pages generator_stop self parse robber order urls =
     (let check_page_repeat = CheckPageRepeat_init 3
      in case ThreadPoolExecutor_init (max_workers self) of
           Inl e \<Rightarrow> \<lparr>yielded = [], ending = leave_generator generator_stop e, submitted = 0\<rparr>
         | Inr pool_size \<Rightarrow>
             (let future_set = map (\<lambda>(i, url). (url, robber i url)) (enumerate 0 urls);
                  (pages, en) = drain generator_stop parse check_page_repeat
                                  (as_completed order future_set)
              in \<lparr>yielded = pages, ending = en, submitted = length future_set\<rparr>))"

section \<open>Properties of CheckPageRepeat\<close>

lemma call_check_break [simp]:
  "check_break (snd (CheckPageRepeat_call s b)) = check_break s"
  by (simp add: CheckPageRepeat_call_def)

lemma call_max_page_repeat [simp]:
  "max_page_repeat (snd (CheckPageRepeat_call s b)) = max_page_repeat s"
  by (simp add: CheckPageRepeat_call_def)

lemma observe_all_check_break [simp]:
  "check_break (observe_all s bs) = check_break s"
  by (induction bs arbitrary: s) simp_all

lemma observe_all_append:
  "observe_all s (as @ bs) = observe_all (observe_all s as) bs"
  by (induction as arbitrary: s) simp_all

text \<open>
  C6. One call: when the page text equals the stored one, the streak grows by one, the
  answer is true and the stored text stays; otherwise the streak is reset to zero, the new
  text is stored and the answer is false.
\<close>

theorem C6_call_policy:
  "(Some b = last_page_text s \<longrightarrow>
      fst (CheckPageRepeat_call s b) = True \<and>
      repeat_page (snd (CheckPageRepeat_call s b)) = repeat_page s + 1 \<and>
      last_page_text (snd (CheckPageRepeat_call s b)) = last_page_text s) \<and>
   (Some b \<noteq> last_page_text s \<longrightarrow>
      fst (CheckPageRepeat_call s b) = False \<and>
      repeat_page (snd (CheckPageRepeat_call s b)) = 0 \<and>
      last_page_text (snd (CheckPageRepeat_call s b)) = Some b)"
  by (simp add: CheckPageRepeat_call_def)

theorem C6_call_policy_witness:
  "fst (CheckPageRepeat_call
         \<lparr>last_page_text = Some ''A'', repeat_page = 2, check_break = False,
          max_page_repeat = 3\<rparr> ''A'') = True \<and>
   repeat_page (snd (CheckPageRepeat_call
         \<lparr>last_page_text = Some ''A'', repeat_page = 2, check_break = False,
          max_page_repeat = 3\<rparr> ''A'')) = 3 \<and>
   last_page_text (snd (CheckPageRepeat_call
         \<lparr>last_page_text = Some ''A'', repeat_page = 2, check_break = False,
          max_page_repeat = 3\<rparr> ''A'')) = Some ''A'' \<and>
   fst (CheckPageRepeat_call
         \<lparr>last_page_text = Some ''A'', repeat_page = 2, check_break = False,
          max_page_repeat = 3\<rparr> ''B'') = False \<and>
   repeat_page (snd (CheckPageRepeat_call
         \<lparr>last_page_text = Some ''A'', repeat_page = 2, check_break = False,
          max_page_repeat = 3\<rparr> ''B'')) = 0 \<and>
   last_page_text (snd (CheckPageRepeat_call
         \<lparr>last_page_text = Some ''A'', repeat_page = 2, check_break = False,
          max_page_repeat = 3\<rparr> ''B'')) = Some ''B''"
  using C6_call_policy
          [of "''A''" "\<lparr>last_page_text = Some ''A'', repeat_page = 2, check_break = False,
                       max_page_repeat = 3\<rparr>"]
        C6_call_policy
          [of "''B''" "\<lparr>last_page_text = Some ''A'', repeat_page = 2, check_break = False,
                       max_page_repeat = 3\<rparr>"]
  by simp

text \<open>
  C2 (evaluation at the failing input). With the default threshold 3, five equal bodies
  take the streak to 4, above the threshold, and the flag is still false; on the claim's
  own sequence the flag is false as well.
\<close>

theorem C2_flag_not_raised:
  "streaks (CheckPageRepeat_init 3) [''A'', ''A'', ''A'', ''A'', ''A''] = [0, 1, 2, 3, 4] \<and>
   check_break (observe_all (CheckPageRepeat_init 3) [''A'', ''A'', ''A'', ''A'', ''A'']) = False \<and>
   check_break (observe_all (CheckPageRepeat_init 3) [''A'', ''A'', ''A'', ''A'']) = False \<and>
   check_break (observe_all (CheckPageRepeat_init 3) [''A'', ''A'', ''A'', ''A'', ''B'']) = False"
  by (simp add: CheckPageRepeat_init_def CheckPageRepeat_call_def)

text \<open>
  C9. Over any sequence of calls the flag, once true, stays true; and a flag that was
  false before the sequence is false after it whenever no call of the sequence left the
  streak above the threshold (so it is true only if some call did).
\<close>

theorem C9_flag_monotone:
  "(check_break s \<longrightarrow> check_break (observe_all s bs)) \<and>
   (\<not> check_break s \<and> (\<forall>n \<in> set (streaks s bs). \<not> n > max_page_repeat s)
      \<longrightarrow> \<not> check_break (observe_all s bs))"
  by simp

theorem C9_flag_monotone_witness:
  "check_break (observe_all
      \<lparr>last_page_text = Some ''A'', repeat_page = 4, check_break = True, max_page_repeat = 3\<rparr>
      [''A'', ''B'']) \<and>
   streaks (CheckPageRepeat_init 3) [''A'', ''B'', ''A'', ''B''] = [0, 0, 0, 0] \<and>
   max_page_repeat (CheckPageRepeat_init 3) = 3 \<and>
   \<not> check_break (observe_all (CheckPageRepeat_init 3) [''A'', ''B'', ''A'', ''B''])"
  using C9_flag_monotone
          [of "\<lparr>last_page_text = Some ''A'', repeat_page = 4, check_break = True,
                max_page_repeat = 3\<rparr>" "[''A'', ''B'']"]
        C9_flag_monotone [of "CheckPageRepeat_init 3" "[''A'', ''B'', ''A'', ''B'']"]
  by (simp add: CheckPageRepeat_init_def CheckPageRepeat_call_def)

section \<open>Properties of the identity hash\<close>

lemma py_hash_error: "py_hash h v = Inl e \<Longrightarrow> e = TypeError"
  by (cases v) simp_all

lemma fold_xor_step_Inl [simp]: "fold (\<lambda>p. xor_step (f p)) xs (Inl e) = Inl e"
  by (induction xs) (simp_all add: xor_step_def)

lemma xor_step_simps [simp]:
  "xor_step c (Inl e) = Inl e"
  "xor_step (Inl e) (Inr acc) = Inl e"
  "xor_step (Inr x) (Inr acc) = Inr (acc XOR x)"
  by (simp_all add: xor_step_def)

lemma kwargs_loop_fold:
  "kwargs_loop h acc kws = fold (\<lambda>p. xor_step (item_hash h p)) kws (Inr acc)"
proof (induction h acc kws rule: kwargs_loop.induct)
  case (1 h acc)
  show ?case by simp
next
  case (2 h acc key d rest)
  show ?case
  proof (cases "kwargs_loop h (h (Str [])) d")
    case (Inl e)
    then show ?thesis by (simp add: get_kwargs_hash_def)
  next
    case (Inr x)
    with "2.IH"(2) [of x] show ?thesis by (simp add: get_kwargs_hash_def)
  qed
next
  case (3 h acc key a rest)
  then show ?case by simp
next
  case (4 h acc key l rest)
  then show ?case by simp
qed

lemma kwargs_loop_error: "kwargs_loop h acc kws = Inl e \<Longrightarrow> e = TypeError"
  by (induction h acc kws rule: kwargs_loop.induct) (auto split: sum.splits)

lemma item_hash_error: "item_hash h p = Inl e \<Longrightarrow> e = TypeError"
  by (cases "(h, p)" rule: item_hash.cases) (auto simp: get_kwargs_hash_def dest: kwargs_loop_error)

lemma xor_step_commute:
  assumes "\<And>e. c = Inl e \<Longrightarrow> e = TypeError" and "\<And>e. d = Inl e \<Longrightarrow> e = TypeError"
  shows "xor_step c (xor_step d r) = xor_step d (xor_step c r)"
  using assms by (cases r; cases c; cases d) (simp_all add: xor_step_def ac_simps)

lemma same_hash:
  "(same_value v w \<longrightarrow> (\<forall>k. item_hash h (k, v) = item_hash h (k, w))) \<and>
   (same_items d e \<longrightarrow>
      (\<forall>r. fold (\<lambda>p. xor_step (item_hash h p)) d r = fold (\<lambda>p. xor_step (item_hash h p)) e r))"
proof (induction rule: same_value_same_items.induct)
  case (same_Dict d e)
  then show ?case by (simp add: get_kwargs_hash_def kwargs_loop_fold)
next
  case (items_swap x y d)
  then show ?case
    by (simp add: xor_step_commute [OF item_hash_error item_hash_error])
qed simp_all

lemma reduce_xor_hash_fold:
  "reduce_xor_hash h acc as = fold (\<lambda>a. xor_step (py_hash h a)) as (Inr acc)"
proof (induction as arbitrary: acc)
  case Nil
  show ?case by simp
next
  case (Cons a as)
  show ?case by (cases "py_hash h a") (simp_all add: Cons.IH)
qed

lemma args_hash_fold:
  "as \<noteq> [] \<Longrightarrow> args_hash h as = fold (\<lambda>a. xor_step (py_hash h a)) as (Inr 0)"
  by (cases as; cases "py_hash h (hd as)") (simp_all add: args_hash_def reduce_xor_hash_fold)

lemma args_hash_mset:
  assumes "mset as = mset bs"
  shows "args_hash h as = args_hash h bs"
proof (cases "as = []")
  case True
  with assms show ?thesis by simp
next
  case False
  with assms have "bs \<noteq> []" by auto
  have "fold (\<lambda>a. xor_step (py_hash h a)) as = fold (\<lambda>a. xor_step (py_hash h a)) bs"
    using assms
    by (intro fold_multiset_equiv)
       (auto simp: fun_eq_iff intro: xor_step_commute py_hash_error)
  with False \<open>bs \<noteq> []\<close> show ?thesis by (simp add: args_hash_fold)
qed

lemma same_items_hash:
  "same_items d e \<Longrightarrow> get_kwargs_hash h d = get_kwargs_hash h e"
  using same_hash [of _ _ h d e] by (simp add: get_kwargs_hash_def kwargs_loop_fold)

lemma same_items_refl: "same_items d d"
proof (induction d)
  case Nil
  show ?case by (rule items_Nil)
next
  case (Cons p d)
  obtain k v where "p = (k, v)" by (cases p)
  with items_Cons [OF same_refl Cons.IH] show ?case by simp
qed

lemma same_items_move: "same_items (x # as @ bs) (as @ x # bs)"
proof (induction as)
  case Nil
  show ?case by (simp add: same_items_refl)
next
  case (Cons a as)
  have "same_items (x # a # as @ bs) (a # x # as @ bs)" by (rule items_swap)
  moreover have "same_items (a # x # as @ bs) (a # as @ x # bs)"
    using items_Cons [OF same_refl Cons.IH, where k = "fst a" and v = "snd a"] by simp
  ultimately show ?case using items_trans by simp
qed

lemma same_items_perm: "mset d = mset e \<Longrightarrow> same_items d e"
proof (induction d arbitrary: e)
  case Nil
  then show ?case by (simp add: items_Nil)
next
  case (Cons x d)
  then have "x \<in> set e" by (metis list.set_intros(1) set_mset_mset)
  then obtain as bs where e: "e = as @ x # bs" by (auto simp: in_set_conv_decomp)
  with Cons.prems have "mset d = mset (as @ bs)" by simp
  then have "same_items d (as @ bs)" by (rule Cons.IH)
  then have "same_items (x # d) (x # as @ bs)"
    using items_Cons [OF same_refl, where k = "fst x" and v = "snd x"] by simp
  then show ?case
    unfolding e using same_items_move [of x as bs] by (blast intro: items_trans)
qed

lemma fold_xor_step_out:
  assumes "\<And>e. c = Inl e \<Longrightarrow> e = TypeError"
    and "\<And>p e. f p = Inl e \<Longrightarrow> e = TypeError"
  shows "fold (\<lambda>p. xor_step (f p)) xs (xor_step c r) =
         xor_step c (fold (\<lambda>p. xor_step (f p)) xs r)"
proof (induction xs arbitrary: r)
  case Nil
  show ?case by simp
next
  case (Cons x xs)
  have "xor_step (f x) (xor_step c r) = xor_step c (xor_step (f x) r)"
    by (rule xor_step_commute) (auto dest: assms)
  with Cons.IH [of "xor_step (f x) r"] show ?case by simp
qed

lemma get_kwargs_hash_Cons:
  "get_kwargs_hash h (p # rest) = xor_step (item_hash h p) (get_kwargs_hash h rest)"
  using fold_xor_step_out [of "item_hash h p" "item_hash h" rest "Inr (h (Str []))"]
  by (simp add: get_kwargs_hash_def kwargs_loop_fold item_hash_error)

text \<open>
  C1. Two actions whose positional arguments are the same multiset and whose keyword
  mappings are the same mapping (items reordered at any depth) have the same
  \<^verbatim>\<open>__hash__\<close>: the same number, or \<^verbatim>\<open>TypeError\<close> for both.
\<close>

theorem C1_hash_order_independent:
  assumes "mset (args A1) = mset (args A2)"
    and "same_items (kwargs A1) (kwargs A2)"
  shows "Action_hash h A1 = Action_hash h A2"
  unfolding Action_hash_def args_hash_mset [OF assms(1), of h]
    same_items_hash [OF assms(2), of h]
  by (rule refl)

theorem C1_hash_order_independent_witness:
  "mset (args (Action_init [Atom (Str ''div''), Atom (Str ''a'')]
          [(Str ''attrs'', Dict [(Str ''class'', Atom (Str ''x'')), (Str ''id'', Atom (Str ''y''))]),
           (Str ''limit'', Atom (Num 2))])) =
   mset (args (Action_init [Atom (Str ''a''), Atom (Str ''div'')]
          [(Str ''limit'', Atom (Num 2)),
           (Str ''attrs'', Dict [(Str ''id'', Atom (Str ''y'')), (Str ''class'', Atom (Str ''x''))])])) \<and>
   same_items
     (kwargs (Action_init [Atom (Str ''div''), Atom (Str ''a'')]
          [(Str ''attrs'', Dict [(Str ''class'', Atom (Str ''x'')), (Str ''id'', Atom (Str ''y''))]),
           (Str ''limit'', Atom (Num 2))]))
     (kwargs (Action_init [Atom (Str ''a''), Atom (Str ''div'')]
          [(Str ''limit'', Atom (Num 2)),
           (Str ''attrs'', Dict [(Str ''id'', Atom (Str ''y'')), (Str ''class'', Atom (Str ''x''))])])) \<and>
   Action_hash sample_hash (Action_init [Atom (Str ''div''), Atom (Str ''a'')]
          [(Str ''attrs'', Dict [(Str ''class'', Atom (Str ''x'')), (Str ''id'', Atom (Str ''y''))]),
           (Str ''limit'', Atom (Num 2))]) =
   Action_hash sample_hash (Action_init [Atom (Str ''a''), Atom (Str ''div'')]
          [(Str ''limit'', Atom (Num 2)),
           (Str ''attrs'', Dict [(Str ''id'', Atom (Str ''y'')), (Str ''class'', Atom (Str ''x''))])])"
proof -
  let ?A1 = "Action_init [Atom (Str ''div''), Atom (Str ''a'')]
          [(Str ''attrs'', Dict [(Str ''class'', Atom (Str ''x'')), (Str ''id'', Atom (Str ''y''))]),
           (Str ''limit'', Atom (Num 2))]"
  let ?A2 = "Action_init [Atom (Str ''a''), Atom (Str ''div'')]
          [(Str ''limit'', Atom (Num 2)),
           (Str ''attrs'', Dict [(Str ''id'', Atom (Str ''y'')), (Str ''class'', Atom (Str ''x''))])]"
  have h1: "mset (args ?A1) = mset (args ?A2)"
    by (simp add: Action_init_def)
  have inner: "same_items [(Str ''class'', Atom (Str ''x'')), (Str ''id'', Atom (Str ''y''))]
                          [(Str ''id'', Atom (Str ''y'')), (Str ''class'', Atom (Str ''x''))]"
    by (rule items_swap)
  have step1: "same_items
          [(Str ''attrs'', Dict [(Str ''class'', Atom (Str ''x'')), (Str ''id'', Atom (Str ''y''))]),
           (Str ''limit'', Atom (Num 2))]
          [(Str ''attrs'', Dict [(Str ''id'', Atom (Str ''y'')), (Str ''class'', Atom (Str ''x''))]),
           (Str ''limit'', Atom (Num 2))]"
    by (intro items_Cons same_Dict inner same_refl items_Nil)
  have step2: "same_items
          [(Str ''attrs'', Dict [(Str ''id'', Atom (Str ''y'')), (Str ''class'', Atom (Str ''x''))]),
           (Str ''limit'', Atom (Num 2))]
          [(Str ''limit'', Atom (Num 2)),
           (Str ''attrs'', Dict [(Str ''id'', Atom (Str ''y'')), (Str ''class'', Atom (Str ''x''))])]"
    by (rule items_swap)
  have k1: "kwargs ?A1 =
          [(Str ''attrs'', Dict [(Str ''class'', Atom (Str ''x'')), (Str ''id'', Atom (Str ''y''))]),
           (Str ''limit'', Atom (Num 2))]"
    by (simp add: Action_init_def)
  have k2: "kwargs ?A2 =
          [(Str ''limit'', Atom (Num 2)),
           (Str ''attrs'', Dict [(Str ''id'', Atom (Str ''y'')), (Str ''class'', Atom (Str ''x''))])]"
    by (simp add: Action_init_def)
  have h2: "same_items (kwargs ?A1) (kwargs ?A2)"
    unfolding k1 k2 by (rule items_trans [OF step1 step2])
  show ?thesis
    by (intro conjI h1 h2 C1_hash_order_independent [OF h1 h2])
qed


text \<open>
  C8. An action with no arguments and no keywords hashes to
  \<^verbatim>\<open>hash('') ^ hash('')\<close>, which is 0 whatever the builtin hash gives; no exception is
  raised.
\<close>

theorem C8_empty_action_hash:
  "Action_hash h (Action_init [] []) = Inr (h (Str '''') XOR h (Str '''')) \<and>
   Action_hash h (Action_init [] []) = Inr 0"
  by (simp add: Action_hash_def Action_init_def get_kwargs_hash_def args_hash_def)

text \<open>
  C3 (counterexample). For \<^verbatim>\<open>{'attrs': {'class': 'x'}}\<close> the code adds the hash of
  the nested mapping alone; the formula of the claim adds \<^verbatim>\<open>hash('attrs')\<close> as well,
  and the two results differ.
\<close>

theorem C3_nested_key_counterexample:
  "get_kwargs_hash sample_hash [(Str ''attrs'', Dict [(Str ''class'', Atom (Str ''x''))])] = Inr 94742784 \<and>
   spec_attribute_hash sample_hash [(Str ''attrs'', Dict [(Str ''class'', Atom (Str ''x''))])] = Inr 2674082"
  by (simp add: get_kwargs_hash_def spec_attribute_hash_def)

text \<open>
  C3 (amended). The attribute hash of the empty mapping is \<^verbatim>\<open>hash('')\<close>; a pair with a
  scalar value adds \<^verbatim>\<open>hash(key) ^ hash(value)\<close> to the hash of the other pairs; a pair
  whose value is a nested mapping adds the attribute hash of that mapping, computed by the
  same rule, and not the hash of its key; a pair with an unhashable value raises.
\<close>

theorem C3_kwargs_hash_items:
  "get_kwargs_hash h [] = Inr (h (Str '''')) \<and>
   get_kwargs_hash h ((key, Atom a) # rest) =
     (case get_kwargs_hash h rest of
        Inl e \<Rightarrow> Inl e
      | Inr acc \<Rightarrow> Inr (acc XOR (h key XOR h a))) \<and>
   get_kwargs_hash h ((key, Dict d) # rest) =
     (case get_kwargs_hash h rest of
        Inl e \<Rightarrow> Inl e
      | Inr acc \<Rightarrow> (case get_kwargs_hash h d of Inl e \<Rightarrow> Inl e | Inr x \<Rightarrow> Inr (acc XOR x))) \<and>
   get_kwargs_hash h ((key, Lst l) # rest) = Inl TypeError"
proof (intro conjI)
  show "get_kwargs_hash h [] = Inr (h (Str ''''))"
    by (simp add: get_kwargs_hash_def)
  show "get_kwargs_hash h ((key, Atom a) # rest) =
     (case get_kwargs_hash h rest of
        Inl e \<Rightarrow> Inl e
      | Inr acc \<Rightarrow> Inr (acc XOR (h key XOR h a)))"
    by (simp add: get_kwargs_hash_Cons xor_step_def split: sum.splits)
  show "get_kwargs_hash h ((key, Dict d) # rest) =
     (case get_kwargs_hash h rest of
        Inl e \<Rightarrow> Inl e
      | Inr acc \<Rightarrow> (case get_kwargs_hash h d of Inl e \<Rightarrow> Inl e | Inr x \<Rightarrow> Inr (acc XOR x)))"
    by (simp add: get_kwargs_hash_Cons xor_step_def split: sum.splits)
  show "get_kwargs_hash h ((key, Lst l) # rest) = Inl TypeError"
    by (simp add: get_kwargs_hash_def)
qed


section \<open>Properties of get_pages\<close>

lemma leave_generator_simps [simp]:
  "leave_generator g TypeError = Raised TypeError"
  "leave_generator g ValueError = Raised ValueError"
  "leave_generator g RuntimeError = Raised RuntimeError"
  "leave_generator g (OtherError m) = Raised (OtherError m)"
  "leave_generator True StopIteration = Raised RuntimeError"
  "leave_generator False StopIteration = Swallowed"
  by (simp_all add: leave_generator_def)

lemma leave_generator_not_Stopped [simp]: "leave_generator g e \<noteq> Stopped"
  by (simp add: leave_generator_def)

lemma drain_not_Stopped:
  "\<not> check_break s \<Longrightarrow> snd (drain g parse s cs) \<noteq> Stopped"
proof (induction cs arbitrary: s)
  case Nil
  show ?case by simp
next
  case (Cons c cs)
  obtain url res where c: "c = (url, res)" by (cases c)
  show ?case
  proof (cases res)
    case (Inl e)
    with c show ?thesis by simp
  next
    case (Inr page_text)
    obtain r s' where call: "CheckPageRepeat_call s page_text = (r, s')"
      by (cases "CheckPageRepeat_call s page_text")
    with call_check_break [of s page_text] Cons.prems have nb: "\<not> check_break s'" by simp
    from Cons.IH [OF nb] c Inr call nb show ?thesis
      by (cases "parse page_text") (auto split: prod.splits)
  qed
qed

lemma subseteq_add_mset_right: "A \<subseteq># B \<Longrightarrow> A \<subseteq># add_mset x B"
  by (auto simp: subseteq_mset_def le_Suc_eq)

lemma drain_urls_subseteq:
  "mset (map fst (fst (drain g parse s cs))) \<subseteq># mset (map fst cs)"
proof (induction cs arbitrary: s)
  case Nil
  show ?case by simp
next
  case (Cons c cs)
  obtain url res where c: "c = (url, res)" by (cases c)
  show ?case
  proof (cases res)
    case (Inl e)
    with c show ?thesis by simp
  next
    case (Inr page_text)
    obtain r s' where call: "CheckPageRepeat_call s page_text = (r, s')"
      by (cases "CheckPageRepeat_call s page_text")
    have "mset (map fst (fst (drain g parse s' cs))) \<subseteq># add_mset url (mset (map fst cs))"
      using Cons.IH [of s'] by (rule subseteq_add_mset_right)
    with Cons.IH [of s'] c Inr call show ?thesis
      by (cases "parse page_text") (auto split: prod.splits)
  qed
qed

lemma drain_first_failure:
  assumes "\<not> check_break s"
    and "\<forall>x \<in> set pre. \<exists>t tag. snd x = Inr t \<and> parse t = Inr tag"
    and "r = Inl e \<or> (\<exists>t. r = Inr t \<and> parse t = Inl e)"
  shows "drain g parse s (pre @ (url, r) # post) =
           (fst (drain g parse s pre), leave_generator g e)"
  using assms(1,2)
proof (induction pre arbitrary: s)
  case Nil
  from assms(3) show ?case by auto
next
  case (Cons c pre)
  from Cons.prems(2) obtain u t tag where c: "c = (u, Inr t)" and p: "parse t = Inr tag"
    by (cases c) auto
  obtain b s' where call: "CheckPageRepeat_call s t = (b, s')"
    by (cases "CheckPageRepeat_call s t")
  with call_check_break [of s t] Cons.prems have nb: "\<not> check_break s'" by simp
  from Cons.prems(2) have "\<forall>x \<in> set pre. \<exists>t tag. snd x = Inr t \<and> parse t = Inr tag" by simp
  from Cons.IH [OF nb this] c p call nb show ?case
    by (auto split: prod.splits)
qed

lemma mset_as_completed:
  assumes "mset order = mset [0..<length futures]"
  shows "mset (as_completed order futures) = mset futures"
proof -
  have "mset (map (\<lambda>i. futures ! i) order) = image_mset (\<lambda>i. futures ! i) (mset order)"
    by simp
  also have "\<dots> = mset (map (\<lambda>i. futures ! i) [0..<length futures])"
    by (simp add: assms)
  also have "\<dots> = mset futures" by (simp add: map_nth)
  finally show ?thesis by (simp add: as_completed_def)
qed

lemma map_fst_future_set:
  "map fst (map (\<lambda>(i, url). (url, f i url)) (enumerate n urls)) = urls"
  by (induction urls arbitrary: n) simp_all

lemma future_set_nth:
  "i < length urls \<Longrightarrow>
   map (\<lambda>(i, url). (url, f i url)) (enumerate 0 urls) ! i = (urls ! i, f i (urls ! i))"
  by (simp add: nth_enumerate_eq)

lemma get_pages_Inl:
  "ThreadPoolExecutor_init (max_workers self) = Inl e \<Longrightarrow>
   get_pages g self parse robber order urls =
     \<lparr>yielded = [], ending = leave_generator g e, submitted = 0\<rparr>"
  by (simp add: get_pages_def)

lemma get_pages_Inr:
  "ThreadPoolExecutor_init (max_workers self) = Inr n \<Longrightarrow>
   get_pages g self parse robber order urls =
     \<lparr>yielded = fst (drain g parse (CheckPageRepeat_init 3)
                 (as_completed order (map (\<lambda>(i, url). (url, robber i url)) (enumerate 0 urls)))),
      ending = snd (drain g parse (CheckPageRepeat_init 3)
                 (as_completed order (map (\<lambda>(i, url). (url, robber i url)) (enumerate 0 urls)))),
      submitted = length urls\<rparr>"
  by (simp add: get_pages_def split: prod.splits)

lemma get_pages_urls_subseteq:
  assumes "mset order = mset [0..<length urls]"
  shows "mset (map fst (yielded (get_pages g self parse robber order urls))) \<subseteq># mset urls"
proof (cases "ThreadPoolExecutor_init (max_workers self)")
  case (Inl e)
  then show ?thesis by (simp add: get_pages_Inl)
next
  case (Inr n)
  let ?fs = "map (\<lambda>(i, url). (url, robber i url)) (enumerate 0 urls)"
  have len: "length ?fs = length urls" by simp
  have "mset (map fst (as_completed order ?fs)) = image_mset fst (mset (as_completed order ?fs))"
    by simp
  also have "\<dots> = image_mset fst (mset ?fs)"
    using assms by (simp only: mset_as_completed len)
  also have "\<dots> = mset urls"
    using map_fst_future_set [of robber 0 urls] by (metis mset_map)
  finally have "mset (map fst (as_completed order ?fs)) = mset urls" .
  with drain_urls_subseteq [of g parse "CheckPageRepeat_init 3" "as_completed order ?fs"]
  show ?thesis by (simp add: get_pages_Inr [OF Inr])
qed

text \<open>
  C4 (amended). Whatever the transport and the parser answer and in whatever order the
  futures complete, every yielded URL is one of the input URLs, no URL is yielded more often than
  it occurs in the input, and there are at most \<^verbatim>\<open>len(urls)\<close> pairs; when the input
  URLs are distinct, each is yielded at most once.
\<close>

theorem C4_yielded_urls:
  assumes "mset order = mset [0..<length urls]"
  shows "set (map fst (yielded (get_pages g self parse robber order urls))) \<subseteq> set urls \<and>
         length (yielded (get_pages g self parse robber order urls)) \<le> length urls \<and>
         mset (map fst (yielded (get_pages g self parse robber order urls))) \<subseteq># mset urls \<and>
         (distinct urls \<longrightarrow> distinct (map fst (yielded (get_pages g self parse robber order urls))))"
proof -
  let ?ys = "map fst (yielded (get_pages g self parse robber order urls))"
  have sub: "mset ?ys \<subseteq># mset urls"
    using assms by (rule get_pages_urls_subseteq)
  then have "set_mset (mset ?ys) \<subseteq> set_mset (mset urls)" by (rule set_mset_mono)
  then have s: "set ?ys \<subseteq> set urls" by simp
  from sub have "size (mset ?ys) \<le> size (mset urls)" by (rule size_mset_mono)
  then have l: "length (yielded (get_pages g self parse robber order urls)) \<le> length urls"
    by simp
  have d: "distinct ?ys" if "distinct urls"
  proof -
    have "count (mset ?ys) u \<le> 1" for u
      using mset_subset_eq_count [OF sub, of u] that
      by (metis distinct_count_atmost_1 le_trans order_refl zero_le_one count_mset_0_iff)
    then show ?thesis
      by (metis distinct_count_atmost_1 count_mset_0_iff le_antisym One_nat_def
          count_greater_eq_one_iff in_multiset_in_set)
  qed
  from s l sub d show ?thesis by blast
qed

theorem C4_yielded_urls_witness:
  "mset [Suc 0, 0] = mset [0..<length [''u'', ''v'']] \<and>
   yielded (get_pages True (ThreadAction_init [] []) (\<lambda>t. Inr t) (\<lambda>i url. Inr (url @ ''!'')) [Suc 0, 0]
      [''u'', ''v'']) = [(''v'', ''v!''), (''u'', ''u!'')] \<and>
   set (map fst (yielded (get_pages True (ThreadAction_init [] []) (\<lambda>t. Inr t)
      (\<lambda>i url. Inr (url @ ''!'')) [Suc 0, 0] [''u'', ''v'']))) \<subseteq> set [''u'', ''v''] \<and>
   length (yielded (get_pages True (ThreadAction_init [] []) (\<lambda>t. Inr t)
      (\<lambda>i url. Inr (url @ ''!'')) [Suc 0, 0] [''u'', ''v''])) \<le> length [''u'', ''v''] \<and>
   distinct [''u'', ''v''] \<and>
   distinct (map fst (yielded (get_pages True (ThreadAction_init [] []) (\<lambda>t. Inr t)
      (\<lambda>i url. Inr (url @ ''!'')) [Suc 0, 0] [''u'', ''v''])))"
proof -
  have h: "mset [Suc 0, 0] = mset [0..<length [''u'', ''v'']]" by simp
  have y: "yielded (get_pages True (ThreadAction_init [] []) (\<lambda>t. Inr t)
      (\<lambda>i url. Inr (url @ ''!'')) [Suc 0, 0] [''u'', ''v'']) = [(''v'', ''v!''), (''u'', ''u!'')]"
    by (simp add: get_pages_def ThreadAction_init_def dict_get_def as_completed_def
        CheckPageRepeat_init_def CheckPageRepeat_call_def)
  from C4_yielded_urls [OF h, of True "ThreadAction_init [] []" "\<lambda>t. Inr t"
         "\<lambda>i url. Inr (url @ ''!'')"]
    h y show ?thesis by simp
qed

text \<open>
  C4 (counterexample). With the input \<^verbatim>\<open>['u', 'v', 'u']\<close>, futures completing in
  submission order and a transport that answers each URL with its own page, the URL
  \<^verbatim>\<open>'u'\<close> is yielded twice.
\<close>

theorem C4_duplicate_url_counterexample:
  "yielded (get_pages True (ThreadAction_init [] []) (\<lambda>t. Inr t)
      (\<lambda>i url. Inr (''page of '' @ url)) [0, 1, 2] [''u'', ''v'', ''u'']) =
     [(''u'', ''page of u''), (''v'', ''page of v''), (''u'', ''page of u'')] \<and>
   \<not> distinct (map fst (yielded (get_pages True (ThreadAction_init [] []) (\<lambda>t. Inr t)
      (\<lambda>i url. Inr (''page of '' @ url)) [0, 1, 2] [''u'', ''v'', ''u''])))"
  by (simp add: get_pages_def ThreadAction_init_def dict_get_def as_completed_def
      CheckPageRepeat_init_def CheckPageRepeat_call_def)

text \<open>
  C7 (counterexample). Of two URLs the first is answered with a page text that the parser
  rejects and the transport call of the second raises. The futures complete in submission
  order: the consumer gets the parser's exception, nothing is yielded, and the transport
  failure is never reported.
\<close>

theorem C7_parser_failure_counterexample:
  "(\<lambda>(i::nat) url. if url = ''u2'' then Inl (OtherError ''timeout'') else Inr ''<![foo bar]>'')
       1 ''u2'' = Inl (OtherError ''timeout'') \<and>
   get_pages True (ThreadAction_init [] [])
       (\<lambda>t. if t = ''<![foo bar]>'' then Inl (OtherError ''ParserRejectedMarkup'') else Inr t)
       (\<lambda>i url. if url = ''u2'' then Inl (OtherError ''timeout'') else Inr ''<![foo bar]>'')
       [0, 1] [''u1'', ''u2''] =
     \<lparr>yielded = [], ending = Raised (OtherError ''ParserRejectedMarkup''), submitted = 2\<rparr> \<and>
   ending (get_pages True (ThreadAction_init [] [])
       (\<lambda>t. if t = ''<![foo bar]>'' then Inl (OtherError ''ParserRejectedMarkup'') else Inr t)
       (\<lambda>i url. if url = ''u2'' then Inl (OtherError ''timeout'') else Inr ''<![foo bar]>'')
       [0, 1] [''u1'', ''u2'']) \<noteq> Raised (OtherError ''timeout'')"
  by (simp add: get_pages_def ThreadAction_init_def dict_get_def as_completed_def
      CheckPageRepeat_init_def CheckPageRepeat_call_def)

text \<open>
  C7 (amended). When the pool was created and the transport call of some submitted URL
  raises, the completion order splits at the first future whose transport call raised or
  whose page text the parser rejects. The generator ends there with that exception, as
  \<open>leave_generator\<close> hands it to the consumer, and what it has yielded is what the loop
  yields on the futures drained before. When the parser rejects none of the page texts,
  the exception is that of a transport call.
\<close>

theorem C7_first_failure_surfaces:
  assumes "ThreadPoolExecutor_init (max_workers self) = Inr n"
    and "mset order = mset [0..<length urls]"
    and "i < length urls"
    and "robber i (urls ! i) = Inl e0"
  shows "\<exists>pre url r post e.
           as_completed order (map (\<lambda>(i, url). (url, robber i url)) (enumerate 0 urls)) =
             pre @ (url, r) # post \<and>
           (\<forall>x \<in> set pre. \<exists>t tag. snd x = Inr t \<and> parse t = Inr tag) \<and>
           (r = Inl e \<or> (\<exists>t. r = Inr t \<and> parse t = Inl e)) \<and>
           ((\<forall>t. \<exists>tag. parse t = Inr tag) \<longrightarrow> r = Inl e) \<and>
           ending (get_pages g self parse robber order urls) = leave_generator g e \<and>
           yielded (get_pages g self parse robber order urls) =
             fst (drain g parse (CheckPageRepeat_init 3) pre)"
proof -
  define fs where "fs = map (\<lambda>(i, url). (url, robber i url)) (enumerate 0 urls)"
  define cs where "cs = as_completed order fs"
  define fails where "fails = (\<lambda>x :: string \<times> (exn + string).
     case snd x of Inl e \<Rightarrow> True | Inr t \<Rightarrow> isl (parse t))"
  have len: "length fs = length urls" by (simp add: fs_def)
  have "fs ! i = (urls ! i, Inl e0)"
    unfolding fs_def by (simp only: future_set_nth [OF assms(3)] assms(4))
  moreover have "fs ! i \<in> set fs"
    using assms(3) len by (simp only: nth_mem)
  ultimately have "(urls ! i, Inl e0) \<in> set fs" by simp
  moreover have "mset cs = mset fs"
    unfolding cs_def using assms(2) len by (simp only: mset_as_completed)
  then have "set cs = set fs" by (rule mset_eq_setD)
  ultimately have mem: "(urls ! i, Inl e0) \<in> set cs" by simp
  have "\<exists>x \<in> set cs. fails x"
    by (rule bexI [OF _ mem]) (simp add: fails_def)
  from split_list_first_prop [OF this]
  obtain pre x post where split: "cs = pre @ x # post" and x: "fails x"
    and pre: "\<forall>y \<in> set pre. \<not> fails y"
    by blast
  obtain url r where xr: "x = (url, r)" by (cases x)
  from x xr obtain e where e: "r = Inl e \<or> (\<exists>t. r = Inr t \<and> parse t = Inl e)"
    by (cases r) (auto simp: fails_def isl_def)
  have ok: "\<forall>y \<in> set pre. \<exists>t tag. snd y = Inr t \<and> parse t = Inr tag"
  proof
    fix y assume "y \<in> set pre"
    with pre have nf: "\<not> fails y" by simp
    then obtain t where t: "snd y = Inr t" by (cases "snd y") (auto simp: fails_def)
    with nf have "\<not> isl (parse t)" by (simp add: fails_def)
    then obtain tag where "parse t = Inr tag" by (cases "parse t") auto
    with t show "\<exists>t tag. snd y = Inr t \<and> parse t = Inr tag" by blast
  qed
  have total: "(\<forall>t. \<exists>tag. parse t = Inr tag) \<longrightarrow> r = Inl e"
    using e by (metis Inl_Inr_False)
  have nb: "\<not> check_break (CheckPageRepeat_init 3)"
    by (simp add: CheckPageRepeat_init_def)
  have d: "drain g parse (CheckPageRepeat_init 3) cs =
          (fst (drain g parse (CheckPageRepeat_init 3) pre), leave_generator g e)"
    unfolding split xr by (rule drain_first_failure [OF nb ok e])
  have gp: "get_pages g self parse robber order urls =
     \<lparr>yielded = fst (drain g parse (CheckPageRepeat_init 3) cs),
      ending = snd (drain g parse (CheckPageRepeat_init 3) cs),
      submitted = length urls\<rparr>"
    unfolding cs_def fs_def by (rule get_pages_Inr [OF assms(1)])
  have en: "ending (get_pages g self parse robber order urls) = leave_generator g e"
    and yi: "yielded (get_pages g self parse robber order urls) =
               fst (drain g parse (CheckPageRepeat_init 3) pre)"
    unfolding gp d by simp_all
  have sp: "as_completed order (map (\<lambda>(i, url). (url, robber i url)) (enumerate 0 urls)) =
             pre @ (url, r) # post"
    using split xr by (simp only: cs_def fs_def)
  show ?thesis
    by (intro exI conjI) (rule sp, rule ok, rule e, rule total, rule en, rule yi)
qed

theorem C7_first_failure_surfaces_witness:
  "ThreadPoolExecutor_init (max_workers (ThreadAction_init [] [])) = Inr 5 \<and>
   mset [0, 2, 1] = mset [0..<length [''u1'', ''u2'', ''u3'']] \<and>
   (1::nat) < length [''u1'', ''u2'', ''u3''] \<and>
   (\<lambda>i url. if url = ''u2'' then Inl (OtherError ''timeout'') else Inr url) (1::nat)
       ([''u1'', ''u2'', ''u3''] ! 1) = Inl (OtherError ''timeout'') \<and>
   (\<exists>e. ending (get_pages True (ThreadAction_init [] []) (\<lambda>t. Inr t)
       (\<lambda>i url. if url = ''u2'' then Inl (OtherError ''timeout'') else Inr url)
       [0, 2, 1] [''u1'', ''u2'', ''u3'']) = leave_generator True e) \<and>
   get_pages True (ThreadAction_init [] []) (\<lambda>t. Inr t)
       (\<lambda>i url. if url = ''u2'' then Inl (OtherError ''timeout'') else Inr url)
       [0, 2, 1] [''u1'', ''u2'', ''u3''] =
     \<lparr>yielded = [(''u1'', ''u1''), (''u3'', ''u3'')], ending = Raised (OtherError ''timeout''),
      submitted = 3\<rparr>"
proof -
  let ?robber = "\<lambda>(i::nat) url. if url = ''u2'' then Inl (OtherError ''timeout'') else Inr url"
  have h1: "ThreadPoolExecutor_init (max_workers (ThreadAction_init [] [])) = Inr 5"
    by (simp add: ThreadAction_init_def dict_get_def)
  have h2: "mset [0, 2, 1] = mset [0..<length [''u1'', ''u2'', ''u3'']]"
    by (simp add: upt_rec)
  have h3: "(1::nat) < length [''u1'', ''u2'', ''u3'']" by simp
  have h4: "?robber 1 ([''u1'', ''u2'', ''u3''] ! 1) = Inl (OtherError ''timeout'')" by simp
  have r: "get_pages True (ThreadAction_init [] []) (\<lambda>t. Inr t) ?robber [0, 2, 1]
       [''u1'', ''u2'', ''u3''] =
     \<lparr>yielded = [(''u1'', ''u1''), (''u3'', ''u3'')], ending = Raised (OtherError ''timeout''),
      submitted = 3\<rparr>"
    by (simp add: get_pages_def ThreadAction_init_def dict_get_def as_completed_def
        CheckPageRepeat_init_def CheckPageRepeat_call_def)
  from C7_first_failure_surfaces
         [where self = "ThreadAction_init [] []" and n = 5 and order = "[0, 2, 1]"
            and urls = "[''u1'', ''u2'', ''u3'']" and i = 1 and robber = ?robber
            and ?e0.0 = "OtherError ''timeout''" and parse = "\<lambda>t. Inr t" and g = True,
          OF h1 h2 h3 h4]
  have c: "\<exists>e. ending (get_pages True (ThreadAction_init [] []) (\<lambda>t. Inr t) ?robber
       [0, 2, 1] [''u1'', ''u2'', ''u3'']) = leave_generator True e"
    by (elim exE conjE) (rule exI, assumption)
  show ?thesis by (intro conjI h1 h2 h3 h4 c r)
qed

text \<open>
  C5 (amended). Without the keyword, and with the keyword given as 0, the stored number of
  workers is 5. A negative number is stored as it is, and \<^verbatim>\<open>get_pages\<close> then ends
  with the \<^verbatim>\<open>ValueError\<close> of the pool's constructor, nothing yielded and nothing
  submitted. A positive number is stored and is the size of the pool.
\<close>

theorem C5_max_workers:
  "(map_of kws (Str ''max_workers'') = None \<longrightarrow>
      max_workers (ThreadAction_init as kws) = Atom (Num 5)) \<and>
   (map_of kws (Str ''max_workers'') = Some (Atom (Num 0)) \<longrightarrow>
      max_workers (ThreadAction_init as kws) = Atom (Num 5)) \<and>
   (map_of kws (Str ''max_workers'') = Some (Atom (Num n)) \<and> n < 0 \<longrightarrow>
      max_workers (ThreadAction_init as kws) = Atom (Num n) \<and>
      get_pages g (ThreadAction_init as kws) parse robber order urls =
        \<lparr>yielded = [], ending = Raised ValueError, submitted = 0\<rparr>) \<and>
   (map_of kws (Str ''max_workers'') = Some (Atom (Num n)) \<and> 0 < n \<longrightarrow>
      max_workers (ThreadAction_init as kws) = Atom (Num n) \<and>
      ThreadPoolExecutor_init (max_workers (ThreadAction_init as kws)) = Inr (nat n))"
  by (simp add: ThreadAction_init_def dict_get_def get_pages_def)

theorem C5_max_workers_witness:
  "map_of ([] :: (atom \<times> pyval) list) (Str ''max_workers'') = None \<and>
   max_workers (ThreadAction_init [Atom (Str ''a'')] []) = Atom (Num 5) \<and>
   map_of [(Str ''max_workers'', Atom (Num 0))] (Str ''max_workers'') = Some (Atom (Num 0)) \<and>
   max_workers (ThreadAction_init [] [(Str ''max_workers'', Atom (Num 0))]) = Atom (Num 5) \<and>
   map_of [(Str ''max_workers'', Atom (Num (- 1)))] (Str ''max_workers'') = Some (Atom (Num (- 1))) \<and>
   (- 1 :: int) < 0 \<and>
   max_workers (ThreadAction_init [] [(Str ''max_workers'', Atom (Num (- 1)))]) = Atom (Num (- 1)) \<and>
   get_pages True (ThreadAction_init [] [(Str ''max_workers'', Atom (Num (- 1)))]) (\<lambda>t. Inr t)
       (\<lambda>i url. Inr url) [0] [''u''] =
     \<lparr>yielded = [], ending = Raised ValueError, submitted = 0\<rparr> \<and>
   map_of [(Str ''max_workers'', Atom (Num 3))] (Str ''max_workers'') = Some (Atom (Num 3)) \<and>
   (0 :: int) < 3 \<and>
   ThreadPoolExecutor_init (max_workers (ThreadAction_init [] [(Str ''max_workers'', Atom (Num 3))]))
     = Inr 3"
  using C5_max_workers [where kws = "[]" and as = "[Atom (Str ''a'')]" and n = 0]
    C5_max_workers [where kws = "[(Str ''max_workers'', Atom (Num 0))]" and as = "[]" and n = 0]
    C5_max_workers [where kws = "[(Str ''max_workers'', Atom (Num (- 1)))]" and n = "- 1"
       and as = "[]" and g = True and parse = "\<lambda>t. Inr t" and robber = "\<lambda>i url. Inr url"
       and order = "[0]" and urls = "[''u'']"]
    C5_max_workers [where kws = "[(Str ''max_workers'', Atom (Num 3))]" and n = 3 and as = "[]"]
  by simp

text \<open>
  C5 (counterexample). A \<^verbatim>\<open>ThreadAction\<close> built with \<^verbatim>\<open>max_workers=0\<close> does not
  fail: it works with 5 workers, submits the fetch and yields the page.
\<close>

theorem C5_zero_workers_counterexample:
  "max_workers (ThreadAction_init [] [(Str ''max_workers'', Atom (Num 0))]) = Atom (Num 5) \<and>
   get_pages True (ThreadAction_init [] [(Str ''max_workers'', Atom (Num 0))]) (\<lambda>t. Inr t)
       (\<lambda>i url. Inr (''page of '' @ url)) [0] [''u''] =
     \<lparr>yielded = [(''u'', ''page of u'')], ending = Exhausted, submitted = 1\<rparr>"
  by (simp add: get_pages_def ThreadAction_init_def dict_get_def as_completed_def
      CheckPageRepeat_init_def CheckPageRepeat_call_def)

section \<open>The keyword max_workers in the identity hash\<close>

lemma xor_same_iff: "(x XOR c = (x::int)) = (c = 0)"
  by (metis xor.assoc xor_self_eq xor.right_neutral xor.left_neutral)

lemma xor_eq_0_iff_int: "((a::int) XOR b = 0) = (a = b)"
  by (metis xor.assoc xor_self_eq xor.right_neutral xor.left_neutral)

lemma get_kwargs_hash_insert:
  "get_kwargs_hash h (xs @ p # ys) = xor_step (item_hash h p) (get_kwargs_hash h (xs @ ys))"
proof -
  have "get_kwargs_hash h (p # xs @ ys) = get_kwargs_hash h (xs @ p # ys)"
    by (rule same_items_hash [OF same_items_move])
  then show ?thesis by (simp add: get_kwargs_hash_Cons)
qed

lemma Action_hash_insert_atom:
  assumes "args A = args B" and "kwargs A = xs @ (key, Atom a) # ys" and "kwargs B = xs @ ys"
  shows "Action_hash h A =
           (case Action_hash h B of Inl e \<Rightarrow> Inl e | Inr x \<Rightarrow> Inr (x XOR (h key XOR h a)))"
proof (cases "get_kwargs_hash h (xs @ ys)")
  case (Inl e)
  then show ?thesis
    by (simp add: Action_hash_def assms get_kwargs_hash_insert)
next
  case kh: (Inr k)
  show ?thesis
  proof (cases "args_hash h (args B)")
    case (Inl e)
    with kh show ?thesis by (simp add: Action_hash_def assms get_kwargs_hash_insert)
  next
    case (Inr y)
    have "(k XOR (h key XOR h a)) XOR y = (k XOR y) XOR (h key XOR h a)"
      by (simp add: ac_simps)
    with kh Inr show ?thesis by (simp add: Action_hash_def assms get_kwargs_hash_insert)
  qed
qed

text \<open>
  C10 (amended). The keyword \<^verbatim>\<open>max_workers\<close> stays in the stored keywords. With a
  hashable scalar as its value, the hash of the action is the hash of the action built
  without it, XOR \<^verbatim>\<open>hash('max_workers') ^ hash(value)\<close>; the two hashes differ exactly
  when \<^verbatim>\<open>hash('max_workers')\<close> and \<^verbatim>\<open>hash(value)\<close> differ (and the hash is defined).
\<close>

theorem C10_max_workers_in_hash:
  "kwargs (ThreadAction_init as (xs @ (Str ''max_workers'', Atom a) # ys)) =
     xs @ (Str ''max_workers'', Atom a) # ys \<and>
   Action_hash h (ThreadAction_init as (xs @ (Str ''max_workers'', Atom a) # ys)) =
     (case Action_hash h (ThreadAction_init as (xs @ ys)) of
        Inl e \<Rightarrow> Inl e
      | Inr x \<Rightarrow> Inr (x XOR (h (Str ''max_workers'') XOR h a))) \<and>
   (Action_hash h (ThreadAction_init as (xs @ (Str ''max_workers'', Atom a) # ys)) \<noteq>
    Action_hash h (ThreadAction_init as (xs @ ys))) =
     (h (Str ''max_workers'') \<noteq> h a \<and>
      (\<exists>x. Action_hash h (ThreadAction_init as (xs @ ys)) = Inr x))"
proof -
  let ?A = "ThreadAction_init as (xs @ (Str ''max_workers'', Atom a) # ys)"
  let ?B = "ThreadAction_init as (xs @ ys)"
  have k: "kwargs ?A = xs @ (Str ''max_workers'', Atom a) # ys"
    by (simp add: ThreadAction_init_def)
  have eq: "Action_hash h ?A =
     (case Action_hash h ?B of
        Inl e \<Rightarrow> Inl e
      | Inr x \<Rightarrow> Inr (x XOR (h (Str ''max_workers'') XOR h a)))"
    by (rule Action_hash_insert_atom) (simp_all add: ThreadAction_init_def)
  have "(Action_hash h ?A \<noteq> Action_hash h ?B) =
     (h (Str ''max_workers'') \<noteq> h a \<and> (\<exists>x. Action_hash h ?B = Inr x))"
    unfolding eq
    by (cases "Action_hash h ?B") (simp_all add: xor_same_iff xor_eq_0_iff_int)
  with k eq show ?thesis by (intro conjI)
qed

text \<open>
  C10 (counterexample). \<^verbatim>\<open>ThreadAction('a', max_workers='max_workers')\<close> has the hash of
  \<^verbatim>\<open>ThreadAction('a')\<close>: key and value contribute the same number twice.
\<close>

theorem C10_same_hash_counterexample:
  "Action_hash sample_hash
     (ThreadAction_init [Atom (Str ''a'')] [(Str ''max_workers'', Atom (Str ''max_workers''))]) =
   Action_hash sample_hash (ThreadAction_init [Atom (Str ''a'')] [])"
  by (simp add: Action_hash_def ThreadAction_init_def get_kwargs_hash_def args_hash_def)


end
